theory Spec2Isabelle
  imports Main "HOL-Library.Word"
begin

unbundle bit_operations_syntax

text \<open>
  A shallow embedding of \<^verbatim>\<open>src/addon/validation.cpp\<close>: file name validation, detection
  of names that differ only in case, the binary escaping codec, and the hash list and update
  pack functions over \<^verbatim>\<open>config\<close> trees. Every function keeps the name it has in the
  source. Definitions come first (with the one size lemma that the termination proofs
  need), lemmas and theorems after them.
\<close>

section \<open>Binary escaping codec (\<^verbatim>\<open>encode_binary\<close>, \<^verbatim>\<open>unencode_binary\<close>)\<close>

text \<open>
  The codec works on the bytes of a \<^verbatim>\<open>std::string\<close>. A byte is an 8-bit word, so that
  \<^verbatim>\<open>*j + 1\<close> and \<^verbatim>\<open>(*j++) - 1\<close>, stored back into a \<^verbatim>\<open>char\<close>, wrap modulo 256.
\<close>

type_synonym byte = "8 word"

definition escape_char :: byte where
  "escape_char = 0x01"

text \<open>The \<^verbatim>\<open>switch\<close> of \<^verbatim>\<open>needs_escaping\<close>, case by case.\<close>

definition needs_escaping :: "byte \<Rightarrow> bool" where
  "needs_escaping c =
     (if c = 0x00 then True
      else if c = escape_char then True
      else if c = 0x0D then True
      else if c = 0xFE then True
      else False)"

text \<open>
  \<^verbatim>\<open>res[n++] = c\<close> writes into the result buffer through \<^verbatim>\<open>operator[]\<close>, which is
  only defined for an index below the size of the string. The model makes the bound
  explicit: a write outside the buffer is \<open>None\<close>.
\<close>

definition put :: "byte list \<Rightarrow> nat \<Rightarrow> byte \<Rightarrow> byte list option" where
  "put res n c = (if n < length res then Some (res[n := c]) else None)"

text \<open>\<^verbatim>\<open>std::string::resize\<close>: truncate, or pad with zero bytes.\<close>

definition resize :: "byte list \<Rightarrow> nat \<Rightarrow> byte list" where
  "resize res k = take k res @ replicate (k - length res) 0"

text \<open>
  The loop of \<^verbatim>\<open>encode_binary\<close> over the remaining input, with the buffer \<open>res\<close> and the
  write index \<open>n\<close> as state.
\<close>

fun encode_loop :: "byte list \<Rightarrow> byte list \<Rightarrow> nat \<Rightarrow> byte list option" where
  "encode_loop [] res n = Some res"
| "encode_loop (c # str) res n =
     (if needs_escaping c then
        (case put (resize res (length res + 1)) n escape_char of
           None \<Rightarrow> None
         | Some res1 \<Rightarrow>
             (case put res1 (n + 1) (c + 1) of
                None \<Rightarrow> None
              | Some res2 \<Rightarrow> encode_loop str res2 (n + 2)))
      else
        (case put res n c of
           None \<Rightarrow> None
         | Some res1 \<Rightarrow> encode_loop str res1 (n + 1)))"

definition encode_binary :: "byte list \<Rightarrow> byte list option" where
  "encode_binary str = encode_loop str (resize [] (length str)) 0"

text \<open>
  The loop of \<^verbatim>\<open>unencode_binary\<close>: \<^verbatim>\<open>c = *j++\<close>, then a second read when \<open>c\<close> is the
  escape byte and the input has not ended.
\<close>

fun unencode_loop :: "byte list \<Rightarrow> byte list \<Rightarrow> nat \<Rightarrow> (byte list \<times> nat) option" where
  "unencode_loop [] res n = Some (res, n)"
| "unencode_loop (c # str) res n =
     (if c = escape_char \<and> str \<noteq> [] then
        (case put res n (hd str - 1) of
           None \<Rightarrow> None
         | Some res1 \<Rightarrow> unencode_loop (tl str) res1 (n + 1))
      else
        (case put res n c of
           None \<Rightarrow> None
         | Some res1 \<Rightarrow> unencode_loop str res1 (n + 1)))"

definition unencode_binary :: "byte list \<Rightarrow> byte list option" where
  "unencode_binary str =
     (case unencode_loop str (replicate (length str) 0) 0 of
        None \<Rightarrow> None
      | Some (res, n) \<Rightarrow> Some (resize res n))"

text \<open>
  What the two loops compute, written on lists without the buffer: each byte that needs
  escaping becomes the escape byte followed by the byte plus one; the decoder reads left to
  right and, at an escape byte that has a successor, emits the successor minus one.
\<close>

definition escape_byte :: "byte \<Rightarrow> byte list" where
  "escape_byte c = (if needs_escaping c then [escape_char, c + 1] else [c])"

definition encoded :: "byte list \<Rightarrow> byte list" where
  "encoded str = concat (map escape_byte str)"

fun decoded :: "byte list \<Rightarrow> byte list" where
  "decoded [] = []"
| "decoded (c # str) =
     (if c = escape_char \<and> str \<noteq> [] then (hd str - 1) # decoded (tl str)
      else c # decoded str)"

text \<open>
  A left-to-right scan, as the decoder makes it: every escape byte met at a scan position
  has a successor (which the scan then skips as its payload).
\<close>

fun markers_paired :: "byte list \<Rightarrow> bool" where
  "markers_paired [] = True"
| "markers_paired (c # ys) =
     (if c = escape_char then ys \<noteq> [] \<and> markers_paired (tl ys) else markers_paired ys)"

section \<open>The attribute tree \<^verbatim>\<open>config\<close>\<close>

text \<open>
  Modelled from the spec: the tree container \<^verbatim>\<open>config\<close> (\<^verbatim>\<open>config.hpp\<close> is not part of
  the sources at hand). The spec requires of it: string-valued attributes looked up by name,
  the children under a tag enumerated in insertion order, adding a child under a tag, and
  finding the first child under a tag whose attribute has a given value. A node is a map of
  attributes and the list of its tagged children in insertion order. Reading an attribute
  that is absent yields the empty string.
\<close>

datatype config = Config (attrs: "string \<rightharpoonup> string") (children: "(string \<times> config) list")

definition empty_config :: config where
  "empty_config = Config Map.empty []"

text \<open>\<^verbatim>\<open>cfg["key"]\<close> read as a string.\<close>

definition attr :: "config \<Rightarrow> string \<Rightarrow> string" where
  "attr c k = (case attrs c k of None \<Rightarrow> [] | Some v \<Rightarrow> v)"

text \<open>\<^verbatim>\<open>cfg["key"] = v\<close>.\<close>

definition set_attr :: "config \<Rightarrow> string \<Rightarrow> string \<Rightarrow> config" where
  "set_attr c k v = Config ((attrs c)(k \<mapsto> v)) (children c)"

definition child_range :: "config \<Rightarrow> string \<Rightarrow> config list" where
  "child_range c tag = map snd (filter (\<lambda>tc. fst tc = tag) (children c))"

definition add_child :: "config \<Rightarrow> string \<Rightarrow> config \<Rightarrow> config" where
  "add_child c tag ch = Config (attrs c) (children c @ [(tag, ch)])"

text \<open>\<^verbatim>\<open>find_child(tag, k, v)\<close>: the first child under \<open>tag\<close> with \<open>k = v\<close>, if any.\<close>

definition find_child :: "config \<Rightarrow> string \<Rightarrow> string \<Rightarrow> string \<Rightarrow> config option" where
  "find_child c tag k v = find (\<lambda>ch. attr ch k = v) (child_range c tag)"

lemma size_child_range: "d \<in> set (child_range c tag) \<Longrightarrow> size d < size c"
proof -
  have "(t, d) \<in> set cs \<Longrightarrow> size d < Suc (size_list (size_prod (\<lambda>_. 0) size) cs)"
    for t :: string and cs
    by (induction cs) auto
  then show "d \<in> set (child_range c tag) \<Longrightarrow> size d < size c"
    by (cases c) (auto simp: child_range_def)
qed

section \<open>Content hashes, hash lists and update packs\<close>

text \<open>
  \<^verbatim>\<open>utils::md5(...).base64_digest()\<close> comes from \<^verbatim>\<open>hash.hpp\<close>, which is not part of the
  sources at hand. The digest is a parameter \<open>md5\<close> of every function that reaches it, and
  every theorem holds for any digest function.
\<close>

type_synonym digest = "string \<Rightarrow> string"

definition file_hash_raw :: "digest \<Rightarrow> config \<Rightarrow> string" where
  "file_hash_raw md5 file = md5 (attr file ''contents'')"

definition file_hash :: "digest \<Rightarrow> config \<Rightarrow> string" where
  "file_hash md5 file =
     (let hash = attr file ''hash''
      in if hash = [] then file_hash_raw md5 file else hash)"

definition comp_file_hash :: "digest \<Rightarrow> config \<Rightarrow> config \<Rightarrow> bool" where
  "comp_file_hash md5 file_a file_b =
     (attr file_a ''name'' = attr file_b ''name'' \<and> file_hash md5 file_a = file_hash md5 file_b)"

text \<open>
  The functions below take the tree they read as \<open>Config a cs\<close>, so that their equations
  unfold on a tree that is given and not on a variable. \<^verbatim>\<open>write_hashlist\<close> fills the node
  \<open>hashlist\<close> it is given and returns it; a child that the source adds empty and then
  fills through the reference is added filled.
\<close>

function write_hashlist :: "digest \<Rightarrow> config \<Rightarrow> config \<Rightarrow> config" where
  "write_hashlist md5 hashlist (Config a cs) =
     (let data = Config a cs;
          hashlist1 = set_attr hashlist ''name'' (attr data ''name'');
          hashlist2 =
            fold (\<lambda>f h.
                    add_child h ''file''
                      (set_attr (set_attr empty_config ''name'' (attr f ''name''))
                         ''hash'' (file_hash_raw md5 f)))
              (child_range data ''file'') hashlist1
      in fold (\<lambda>d h. add_child h ''dir'' (write_hashlist md5 empty_config d))
           (child_range data ''dir'') hashlist2)"
  by pat_completeness auto
termination
  by (relation "measure (\<lambda>(md5, hashlist, data). size data)") (auto dest: size_child_range)

text \<open>
  \<^verbatim>\<open>contains_hashlist\<close>: the inner loop with \<^verbatim>\<open>found |= ...; break\<close> is \<open>list_ex\<close>, the
  outer loops that return false at the first failure are \<open>list_all\<close>.
\<close>

function contains_hashlist :: "digest \<Rightarrow> config \<Rightarrow> config \<Rightarrow> bool" where
  "contains_hashlist md5 from (Config a cs) =
     (let to = Config a cs
      in
      list_all (\<lambda>f. list_ex (\<lambda>d. comp_file_hash md5 f d) (child_range from ''file''))
        (child_range to ''file'') \<and>
      list_all
        (\<lambda>d. case find_child from ''dir'' ''name'' (attr d ''name'') of
               Some origin_dir \<Rightarrow> contains_hashlist md5 origin_dir d
             | None \<Rightarrow>
                 (let dummy_dir = set_attr empty_config ''name'' (attr d ''name'')
                  in contains_hashlist md5 dummy_dir d))
        (child_range to ''dir''))"
  by pat_completeness auto
termination
  by (relation "measure (\<lambda>(md5, from, to). size to)") (auto dest: size_child_range)

text \<open>
  \<^verbatim>\<open>write_difference\<close> fills \<open>pack\<close> and returns it with the flag \<^verbatim>\<open>has_changes\<close>. The
  state of each loop is the pair of the pack and the flag.
\<close>

function write_difference ::
  "digest \<Rightarrow> config \<Rightarrow> config \<Rightarrow> config \<Rightarrow> bool \<Rightarrow> config \<times> bool" where
  "write_difference md5 pack from (Config a cs) with_content =
     (let to = Config a cs;
          pack1 = set_attr pack ''name'' (attr to ''name'');
          after_files =
            fold (\<lambda>f (p, has_changes).
                    if list_ex (\<lambda>d. comp_file_hash md5 f d) (child_range from ''file'')
                    then (p, has_changes)
                    else
                      (let file = set_attr empty_config ''name'' (attr f ''name'');
                           file' =
                             (if with_content
                              then set_attr (set_attr file ''contents'' (attr f ''contents''))
                                     ''hash'' (file_hash md5 f)
                              else file)
                       in (add_child p ''file'' file', True)))
              (child_range to ''file'') (pack1, False)
      in fold (\<lambda>d (p, has_changes).
                 case find_child from ''dir'' ''name'' (attr d ''name'') of
                   Some origin_dir \<Rightarrow>
                     (let (dir, changed) =
                            write_difference md5 empty_config origin_dir d with_content
                      in if changed then (add_child p ''dir'' dir, True) else (p, has_changes))
                 | None \<Rightarrow>
                     (let dummy_dir = set_attr empty_config ''name'' (attr d ''name'');
                          (dir, changed) =
                            write_difference md5 empty_config dummy_dir d with_content
                      in if changed then (add_child p ''dir'' dir, True) else (p, has_changes)))
           (child_range to ''dir'') after_files)"
  by pat_completeness auto
termination
  by (relation "measure (\<lambda>(md5, pack, from, to, with_content). size to)")
     (auto dest: size_child_range simp del: config.size)

text \<open>
  \<^verbatim>\<open>make_updatepack\<close> adds the children \<^verbatim>\<open>removelist\<close> and \<^verbatim>\<open>addlist\<close> to \<open>pack\<close>, each
  filled by \<^verbatim>\<open>write_difference\<close> from an empty node, and returns the pack.
\<close>

definition make_updatepack :: "digest \<Rightarrow> config \<Rightarrow> config \<Rightarrow> config \<Rightarrow> config" where
  "make_updatepack md5 pack from to =
     (let removelist = fst (write_difference md5 empty_config to from False);
          pack1 = add_child pack ''removelist'' removelist;
          addlist = fst (write_difference md5 empty_config from to True)
      in add_child pack1 ''addlist'' addlist)"

text \<open>
  Sibling directories have distinct names, at every level that the functions above descend
  into (the children under \<^verbatim>\<open>dir\<close>).
\<close>

function unique_dir_names :: "config \<Rightarrow> bool" where
  "unique_dir_names (Config a cs) =
     (let dir = Config a cs
      in distinct (map (\<lambda>d. attr d ''name'') (child_range dir ''dir'')) \<and>
         list_all unique_dir_names (child_range dir ''dir''))"
  by pat_completeness auto
termination
  by (relation "measure size") (auto dest: size_child_range)

section \<open>File names (\<^verbatim>\<open>addon_filename_legal\<close>)\<close>

text \<open>
  A name is a \<^verbatim>\<open>std::string\<close>, here a \<open>string\<close>: a list of 8-bit characters, so \<open>length\<close>
  counts bytes. A code point (\<^verbatim>\<open>char32_t\<close>) is a 32-bit word.
\<close>

type_synonym char32 = "32 word"

definition dos_device_names :: "string set" where
  "dos_device_names =
     {''NUL'', ''CON'', ''AUX'', ''PRN'',
      ''CONIN$'', ''CONOUT$'',
      ''COM1'', ''COM2'', ''COM3'', ''COM4'', ''COM5'', ''COM6'', ''COM7'', ''COM8'', ''COM9'',
      ''LPT1'', ''LPT2'', ''LPT3'', ''LPT4'', ''LPT5'', ''LPT6'', ''LPT7'', ''LPT8'', ''LPT9''}"

text \<open>
  The \<^verbatim>\<open>switch\<close> of \<^verbatim>\<open>addon_filename_ucs4char_illegal\<close>: the listed characters are space,
  the double quote, \<open>*\<close>, \<open>/\<close>, \<open>:\<close>, \<open><\<close>, \<open>>\<close>, \<open>?\<close>, the backslash, \<open>|\<close>, the tilde
  and DEL; the default branch has the three ranges.
\<close>

definition addon_filename_ucs4char_illegal :: "char32 \<Rightarrow> bool" where
  "addon_filename_ucs4char_illegal c =
     (if c \<in> {0x20, 0x22, 0x2A, 0x2F, 0x3A, 0x3C, 0x3E, 0x3F, 0x5C, 0x7C, 0x7E, 0x7F}
      then True
      else (c < 0x20 \<or> (c \<ge> 0x80 \<and> c < 0xA0) \<or> (c \<ge> 0xD800 \<and> c < 0xE000)))"

text \<open>
  \<^verbatim>\<open>to_upper_copy\<close> and \<^verbatim>\<open>to_lower_copy\<close> with \<^verbatim>\<open>std::locale::classic()\<close>: only the 26
  ASCII letters change.
\<close>

definition to_upper :: "char \<Rightarrow> char" where
  "to_upper c =
     (case map_of (zip ''abcdefghijklmnopqrstuvwxyz'' ''ABCDEFGHIJKLMNOPQRSTUVWXYZ'') c of
        Some u \<Rightarrow> u
      | None \<Rightarrow> c)"

definition to_lower :: "char \<Rightarrow> char" where
  "to_lower c =
     (case map_of (zip ''ABCDEFGHIJKLMNOPQRSTUVWXYZ'' ''abcdefghijklmnopqrstuvwxyz'') c of
        Some l \<Rightarrow> l
      | None \<Rightarrow> c)"

definition to_upper_copy :: "string \<Rightarrow> string" where
  "to_upper_copy s = map to_upper s"

definition to_lower_copy :: "string \<Rightarrow> string" where
  "to_lower_copy s = map to_lower s"

text \<open>\<^verbatim>\<open>name.find("..") != std::string::npos\<close>.\<close>

fun contains_dotdot :: "string \<Rightarrow> bool" where
  "contains_dotdot (a # b # s) = ((a = CHR ''.'' \<and> b = CHR ''.'') \<or> contains_dotdot (b # s))"
| "contains_dotdot _ = False"

text \<open>
  Modelled from the spec: \<^verbatim>\<open>unicode_cast\<close> (\<^verbatim>\<open>serialization/unicode_cast.hpp\<close> is not part
  of the sources at hand). The spec says that the name is decoded as UTF-8 into code points
  and re-encoded. The decoder reads sequences of one to four bytes (a lead byte and its
  continuation bytes \<open>10xxxxxx\<close>) and stops at the first sequence that is not of this form,
  keeping the code points read so far; the encoder writes each code point in the shortest
  form and stops at a code point beyond 21 bits.
\<close>

definition utf8_size :: "nat \<Rightarrow> nat" where
  "utf8_size b =
     (if b < 0x80 then 1
      else if b < 0xC0 then 0
      else if b < 0xE0 then 2
      else if b < 0xF0 then 3
      else if b < 0xF8 then 4
      else 0)"

definition continuation :: "char \<Rightarrow> bool" where
  "continuation c = (0x80 \<le> (of_char c :: nat) \<and> (of_char c :: nat) < 0xC0)"

definition lead_bits :: "nat \<Rightarrow> nat \<Rightarrow> char32" where
  "lead_bits n b = (if n = 1 then of_nat b else of_nat (b mod 2 ^ (7 - n)))"

definition add_continuation :: "char32 \<Rightarrow> char \<Rightarrow> char32" where
  "add_continuation cp c = push_bit 6 cp OR of_nat ((of_char c :: nat) mod 64)"

function utf8_to_ucs4 :: "string \<Rightarrow> char32 list" where
  "utf8_to_ucs4 [] = []"
| "utf8_to_ucs4 (c # s) =
     (let n = utf8_size (of_char c)
      in if n = 0 \<or> length s < n - 1 \<or> \<not> list_all continuation (take (n - 1) s)
         then []
         else fold (\<lambda>c cp. add_continuation cp c) (take (n - 1) s) (lead_bits n (of_char c))
              # utf8_to_ucs4 (drop (n - 1) s))"
  by pat_completeness auto
termination
  by (relation "measure length") auto

definition utf8_byte :: "char32 \<Rightarrow> char" where
  "utf8_byte w = char_of (unat w)"

definition ucs4_char_to_utf8 :: "char32 \<Rightarrow> string option" where
  "ucs4_char_to_utf8 cp =
     (if cp < 0x80 then Some [utf8_byte cp]
      else if cp < 0x800 then
        Some [utf8_byte (0xC0 OR drop_bit 6 cp), utf8_byte (0x80 OR (cp AND 0x3F))]
      else if cp < 0x10000 then
        Some [utf8_byte (0xE0 OR drop_bit 12 cp),
              utf8_byte (0x80 OR (drop_bit 6 cp AND 0x3F)),
              utf8_byte (0x80 OR (cp AND 0x3F))]
      else if cp < 0x200000 then
        Some [utf8_byte (0xF0 OR drop_bit 18 cp),
              utf8_byte (0x80 OR (drop_bit 12 cp AND 0x3F)),
              utf8_byte (0x80 OR (drop_bit 6 cp AND 0x3F)),
              utf8_byte (0x80 OR (cp AND 0x3F))]
      else None)"

fun ucs4_to_utf8 :: "char32 list \<Rightarrow> string" where
  "ucs4_to_utf8 [] = []"
| "ucs4_to_utf8 (cp # cps) =
     (case ucs4_char_to_utf8 cp of None \<Rightarrow> [] | Some bs \<Rightarrow> bs @ ucs4_to_utf8 cps)"

text \<open>
  \<^verbatim>\<open>addon_filename_legal\<close>, check by check in the order of the source. The stem is
  \<^verbatim>\<open>name.substr(0, name.find('.'))\<close>: the name up to its first dot, or all of it.
\<close>

definition addon_filename_legal :: "string \<Rightarrow> bool" where
  "addon_filename_legal name =
     (if name = [] \<or> last name = CHR ''.'' \<or> contains_dotdot name \<or> length name > 255
      then False
      else
        (let stem = to_upper_copy (takeWhile (\<lambda>c. c \<noteq> CHR ''.'') name)
         in if stem \<in> dos_device_names then False
            else
              (let name_ucs4 = utf8_to_ucs4 name;
                   name_utf8 = ucs4_to_utf8 name_ucs4
               in if name \<noteq> name_utf8 then False
                  else \<not> list_ex addon_filename_ucs4char_illegal name_ucs4)))"

section \<open>Names that differ only in case (\<^verbatim>\<open>check_case_insensitive_duplicates\<close>)\<close>

text \<open>
  The map \<^verbatim>\<open>filenames\<close> takes a lower-cased name to the pair \<^verbatim>\<open>(printed, original)\<close>.
  The pointer \<^verbatim>\<open>badlist\<close> is an option: \<open>None\<close> is the null pointer (fail-fast mode),
  \<open>Some bl\<close> is the list the caller supplied (diagnostic mode).

  \<^verbatim>\<open>record_name\<close> is the block that the source repeats in its two loops: \<^verbatim>\<open>emplace\<close>,
  and on a key that was present either the report, or \<^verbatim>\<open>return false\<close> (the result \<open>None\<close>).
\<close>

type_synonym filenames = "string \<rightharpoonup> bool \<times> string"

definition record_name ::
  "string \<Rightarrow> string \<Rightarrow> filenames \<times> string list option \<Rightarrow>
   (filenames \<times> string list option) option" where
  "record_name prefix filename st =
     (let (filenames, badlist) = st;
          lowercase = to_lower_copy filename;
          with_prefix = prefix @ filename
      in case filenames lowercase of
           None \<Rightarrow> Some (filenames(lowercase \<mapsto> (False, with_prefix)), badlist)
         | Some (printed, original) \<Rightarrow>
             (case badlist of
                None \<Rightarrow> None
              | Some bl \<Rightarrow>
                  if \<not> printed
                  then Some (filenames(lowercase \<mapsto> (True, [])),
                             Some (bl @ [original] @ [with_prefix]))
                  else Some (filenames, Some (bl @ [with_prefix]))))"

text \<open>
  The state of the two loops is \<open>Some (filenames, badlist)\<close>, or \<open>None\<close> once the source
  has returned false from inside a loop. The result is the returned flag and the list.
\<close>

function check_case_insensitive_duplicates_internal ::
  "config \<Rightarrow> string \<Rightarrow> string list option \<Rightarrow> bool \<times> string list option" where
  "check_case_insensitive_duplicates_internal (Config a cs) prefix badlist =
     (let dir = Config a cs;
          after_files =
            fold (\<lambda>path st.
                    case st of
                      None \<Rightarrow> None
                    | Some s \<Rightarrow> record_name prefix (attr path ''name'') s)
              (child_range dir ''file'') (Some (Map.empty, badlist));
          after_dirs =
            fold (\<lambda>path st.
                    case st of
                      None \<Rightarrow> None
                    | Some s \<Rightarrow>
                        (case record_name prefix (attr path ''name'') s of
                           None \<Rightarrow> None
                         | Some (filenames, badlist1) \<Rightarrow>
                             (let (ok, badlist2) =
                                    check_case_insensitive_duplicates_internal path
                                      (prefix @ attr path ''name'' @ ''/'') badlist1
                              in if \<not> ok \<and> badlist = None then None
                                 else Some (filenames, badlist2))))
              (child_range dir ''dir'') after_files
      in case after_dirs of
           None \<Rightarrow> (False, badlist)
         | Some (filenames, badlist') \<Rightarrow>
             (case badlist' of None \<Rightarrow> (True, None) | Some bl \<Rightarrow> (bl = [], Some bl)))"
  by pat_completeness auto
termination
  by (relation "measure (\<lambda>(dir, prefix, badlist). size dir)")
     (auto dest: size_child_range simp del: config.size)

definition check_case_insensitive_duplicates ::
  "config \<Rightarrow> string list option \<Rightarrow> bool \<times> string list option" where
  "check_case_insensitive_duplicates dir badlist =
     check_case_insensitive_duplicates_internal dir [] badlist"

text \<open>
  The report in the words of the spec. \<open>collision_report prefix earlier name\<close> is what one
  name adds, given the names seen \<open>earlier\<close> at the same level: nothing when none of them
  has the same lower-cased key; the path of the one seen before and the new path at the first
  collision on the key; only the new path at every later collision.
\<close>

definition collision_report :: "string \<Rightarrow> string list \<Rightarrow> string \<Rightarrow> string list" where
  "collision_report prefix earlier name =
     (let same = filter (\<lambda>n. to_lower_copy n = to_lower_copy name) earlier
      in if same = [] then []
         else if length same = 1 then [prefix @ hd same, prefix @ name]
         else [prefix @ name])"

text \<open>
  The report of a whole tree: at each level the files in order, then the directories in
  order, each directory followed by the report of its own level under the prefix extended by
  its name and a slash. The names seen earlier than the \<open>i\<close>-th directory are all the file
  names and the names of the directories before it.
\<close>

function duplicates_report :: "config \<Rightarrow> string \<Rightarrow> string list" where
  "duplicates_report (Config a cs) prefix =
     (let dir = Config a cs;
          fs = map (\<lambda>f. attr f ''name'') (child_range dir ''file'');
          ds = child_range dir ''dir'';
          dns = map (\<lambda>d. attr d ''name'') ds
      in concat (map (\<lambda>i. collision_report prefix (take i fs) (fs ! i)) [0..<length fs]) @
         concat (map (\<lambda>i. collision_report prefix (fs @ take i dns) (dns ! i) @
                          duplicates_report (ds ! i) (prefix @ dns ! i @ ''/''))
                   [0..<length ds]))"
  by pat_completeness auto
termination
  by (relation "measure (\<lambda>(dir, prefix). size dir)")
     (auto intro: size_child_range [OF nth_mem] simp del: config.size)

text \<open>
  The map \<^verbatim>\<open>filenames\<close> after the names \<open>earlier\<close> have been recorded at a level, by the
  number of them that share the lower-cased key: none, one (not yet printed, with its path),
  or more (printed).
\<close>

definition seen_state :: "string \<Rightarrow> string list \<Rightarrow> filenames" where
  "seen_state prefix earlier =
     (\<lambda>k. case filter (\<lambda>n. to_lower_copy n = k) earlier of
            [] \<Rightarrow> None
          | [n] \<Rightarrow> Some (False, prefix @ n)
          | _ \<Rightarrow> Some (True, []))"

section \<open>Example trees\<close>

text \<open>
  Concrete trees on which the theorems below are evaluated. \<open>mk_file\<close> is a file node
  with its three attributes, \<open>mk_dir\<close> a directory with its files and then its subdirectories.
  \<open>twin_dirs\<close> has two sibling directories named \<open>a\<close>, the second with a file;
  \<open>twin_files\<close> has two sibling files named \<open>f\<close> and distinct directory names;
  \<open>new_tree\<close> is \<open>old_tree\<close> with one file changed and a new directory;
  \<open>cached_tree\<close> has two files with the same contents and different cached hashes.
\<close>

definition mk_file :: "string \<Rightarrow> string \<Rightarrow> string \<Rightarrow> config" where
  "mk_file name contents hash =
     Config [''name'' \<mapsto> name, ''contents'' \<mapsto> contents, ''hash'' \<mapsto> hash] []"

definition mk_dir :: "string \<Rightarrow> config list \<Rightarrow> config list \<Rightarrow> config" where
  "mk_dir name files dirs =
     Config [''name'' \<mapsto> name] (map (Pair ''file'') files @ map (Pair ''dir'') dirs)"

definition twin_dirs :: config where
  "twin_dirs =
     mk_dir ''top'' [] [mk_dir ''a'' [] [], mk_dir ''a'' [mk_file ''f'' ''x'' ''h''] []]"

definition old_tree :: config where
  "old_tree =
     mk_dir ''top'' [mk_file ''same'' ''s'' ''h0'', mk_file ''changed'' ''c'' ''h1'']
       [mk_dir ''sub'' [mk_file ''kept'' ''k'' ''h2''] []]"

definition new_tree :: config where
  "new_tree =
     mk_dir ''top'' [mk_file ''same'' ''s'' ''h0'', mk_file ''changed'' ''d'' ''h3'']
       [mk_dir ''sub'' [mk_file ''kept'' ''k'' ''h2''] [],
        mk_dir ''fresh'' [mk_file ''new.cfg'' ''n'' ''h4''] []]"

definition twin_files :: config where
  "twin_files =
     mk_dir ''top'' [mk_file ''f'' ''x'' ''h1'', mk_file ''f'' ''y'' ''h2'']
       [mk_dir ''a'' [mk_file ''f'' ''x'' ''h1''] [], mk_dir ''b'' [] []]"

definition cached_tree :: config where
  "cached_tree = mk_dir ''d'' [mk_file ''a'' ''c'' ''x'', mk_file ''b'' ''c'' ''y''] []"

text \<open>
  \<open>readme_dir\<close> is the directory of the spec's example. \<open>case_tree\<close> has three files
  and a directory that share one key, and two files inside that directory that share
  another.
\<close>

definition readme_dir :: config where
  "readme_dir =
     mk_dir ''top'' [mk_file ''Readme.txt'' ''a'' ''h1'', mk_file ''readme.TXT'' ''b'' ''h2''] []"

definition case_tree :: config where
  "case_tree =
     mk_dir ''top''
       [mk_file ''Ab'' ''1'' ''h1'', mk_file ''aB'' ''2'' ''h2'', mk_file ''AB'' ''3'' ''h3'',
        mk_file ''other'' ''4'' ''h4'']
       [mk_dir ''ab'' [mk_file ''x'' ''5'' ''h5'', mk_file ''X'' ''6'' ''h6''] [],
        mk_dir ''sub'' [] []]"

section \<open>Proofs: the codec\<close>

text \<open>
  The two buffer loops never write outside the buffer, and they compute \<open>encoded\<close> and
  \<open>decoded\<close>. The invariant of the encoder: the buffer holds exactly the bytes written so
  far plus one slot per byte still to read.
\<close>

lemma take_Suc_put:
  "n < length res \<Longrightarrow> take (Suc n) (res[n := c]) = take n res @ [c]"
  by (simp add: take_Suc_conv_app_nth)

lemma encode_loop_encoded:
  "length res = n + length str \<Longrightarrow> encode_loop str res n = Some (take n res @ encoded str)"
proof (induction str arbitrary: res n)
  case Nil
  then show ?case by (simp add: encoded_def)
next
  case (Cons c str)
  show ?case
  proof (cases "needs_escaping c")
    case True
    let ?r1 = "(res @ [0])[n := escape_char]"
    let ?r2 = "?r1[Suc n := c + 1]"
    have len: "length ?r2 = (n + 2) + length str"
      using Cons.prems by simp
    have tk: "take (n + 2) ?r2 = take n res @ [escape_char, c + 1]"
      using Cons.prems by (simp add: take_Suc_conv_app_nth nth_append)
    have "encode_loop (c # str) res n = encode_loop str ?r2 (n + 2)"
      using True Cons.prems by (simp add: put_def resize_def)
    also have "\<dots> = Some (take (n + 2) ?r2 @ encoded str)"
      by (rule Cons.IH [OF len])
    finally show ?thesis
      using True tk by (simp add: encoded_def escape_byte_def)
  next
    case False
    let ?r1 = "res[n := c]"
    have len: "length ?r1 = (n + 1) + length str"
      using Cons.prems by simp
    have tk: "take (n + 1) ?r1 = take n res @ [c]"
      using Cons.prems by (simp add: take_Suc_put)
    have "encode_loop (c # str) res n = encode_loop str ?r1 (n + 1)"
      using False Cons.prems by (simp add: put_def)
    also have "\<dots> = Some (take (n + 1) ?r1 @ encoded str)"
      by (rule Cons.IH [OF len])
    finally show ?thesis
      using False tk by (simp add: encoded_def escape_byte_def)
  qed
qed

lemma encode_binary_encoded: "encode_binary str = Some (encoded str)"
  using encode_loop_encoded [of "resize [] (length str)" 0 str]
  by (simp add: encode_binary_def resize_def)

lemma length_decoded: "length (decoded str) \<le> length str"
  by (induction str rule: decoded.induct) auto

lemma unencode_loop_decoded:
  "n + length str \<le> length res \<Longrightarrow>
   \<exists>res'. unencode_loop str res n = Some (res', n + length (decoded str)) \<and>
          take (n + length (decoded str)) res' = take n res @ decoded str \<and>
          length res' = length res"
proof (induction str arbitrary: res n rule: decoded.induct)
  case 1
  then show ?case by simp
next
  case (2 c str)
  show ?case
  proof (cases "c = escape_char \<and> str \<noteq> []")
    case True
    let ?r1 = "res[n := hd str - 1]"
    have le: "Suc n + length (tl str) \<le> length ?r1"
      using "2.prems" by simp
    from "2.IH"(1) [OF True le] obtain res' where
      r: "unencode_loop (tl str) ?r1 (Suc n) = Some (res', Suc n + length (decoded (tl str)))"
         "take (Suc n + length (decoded (tl str))) res' = take (Suc n) ?r1 @ decoded (tl str)"
         "length res' = length ?r1"
      by blast
    have tk: "take (Suc n) ?r1 = take n res @ [hd str - 1]"
      using "2.prems" by (simp add: take_Suc_put)
    have step: "unencode_loop (c # str) res n = unencode_loop (tl str) ?r1 (Suc n)"
      using True "2.prems" by (simp add: put_def)
    have dec: "decoded (c # str) = (hd str - 1) # decoded (tl str)"
      using True by simp
    show ?thesis
      unfolding step dec using r tk by simp
  next
    case False
    let ?r1 = "res[n := c]"
    have le: "Suc n + length str \<le> length ?r1"
      using "2.prems" by simp
    from "2.IH"(2) [OF False le] obtain res' where
      r: "unencode_loop str ?r1 (Suc n) = Some (res', Suc n + length (decoded str))"
         "take (Suc n + length (decoded str)) res' = take (Suc n) ?r1 @ decoded str"
         "length res' = length ?r1"
      by blast
    have tk: "take (Suc n) ?r1 = take n res @ [c]"
      using "2.prems" by (simp add: take_Suc_put)
    have step: "unencode_loop (c # str) res n = unencode_loop str ?r1 (Suc n)"
      using False "2.prems" by (auto simp: put_def)
    have dec: "decoded (c # str) = c # decoded str"
      using False by auto
    show ?thesis
      unfolding step dec using r tk by simp
  qed
qed

lemma unencode_binary_decoded: "unencode_binary str = Some (decoded str)"
proof -
  obtain res' where
    r: "unencode_loop str (replicate (length str) 0) 0 = Some (res', length (decoded str))"
       "take (length (decoded str)) res' = decoded str"
    using unencode_loop_decoded [of 0 str "replicate (length str) 0"] by auto
  have "length (take (length (decoded str)) res') = length (decoded str)"
    using r(2) by simp
  then have "length (decoded str) \<le> length res'" by simp
  then show ?thesis
    using r by (simp add: unencode_binary_def resize_def)
qed

lemma decoded_encoded: "decoded (encoded str) = str"
  by (induction str) (auto simp: encoded_def escape_byte_def escape_char_def needs_escaping_def)

lemma encoded_plain: "\<forall>c \<in> set str. \<not> needs_escaping c \<Longrightarrow> encoded str = str"
  by (induction str) (auto simp: encoded_def escape_byte_def)


lemma set_encoded:
  "0x00 \<notin> set (encoded str) \<and> 0x0D \<notin> set (encoded str) \<and> 0xFE \<notin> set (encoded str)"
  by (induction str)
     (auto simp: encoded_def escape_byte_def escape_char_def needs_escaping_def split: if_splits)

lemma markers_paired_encoded: "markers_paired (encoded str)"
  by (induction str)
     (auto simp: encoded_def escape_byte_def escape_char_def needs_escaping_def)

lemma encoded_last:
  "str \<noteq> [] \<Longrightarrow> encoded str \<noteq> [] \<and> (last (encoded str) = 0x01) = (last str = 0x00)"
proof (induction str rule: rev_induct)
  case Nil
  then show ?case by simp
next
  case (snoc c str)
  have "encoded (str @ [c]) = encoded str @ escape_byte c"
    by (simp add: encoded_def)
  then show ?case
    by (auto simp: escape_byte_def escape_char_def needs_escaping_def)
qed

text \<open>
  C1. Decoding the encoding of any byte sequence gives the sequence back (both functions
  return, no write leaves the buffer), and a sequence without the bytes 0x00, 0x01, 0x0D
  and 0xFE is its own encoding.
\<close>

theorem encode_binary_round_trip:
  "(\<exists>y. encode_binary x = Some y \<and> unencode_binary y = Some x) \<and>
   (set x \<inter> {0x00, 0x01, 0x0D, 0xFE} = {} \<longrightarrow> encode_binary x = Some x)"
proof -
  have "set x \<inter> {0x00, 0x01, 0x0D, 0xFE} = {} \<Longrightarrow> \<forall>c \<in> set x. \<not> needs_escaping c"
    by (auto simp: needs_escaping_def escape_char_def)
  then show ?thesis
    by (auto simp: encode_binary_encoded unencode_binary_decoded decoded_encoded encoded_plain)
qed

theorem encode_binary_round_trip_witness:
  "set [0x41, 0x42, 0xFF :: byte] \<inter> {0x00, 0x01, 0x0D, 0xFE} = {} \<and>
   encode_binary [0x41, 0x42, 0xFF] = Some [0x41, 0x42, 0xFF] \<and>
   (\<exists>y. encode_binary [0x00, 0x01, 0x0D, 0xFE, 0x41] = Some y \<and>
        unencode_binary y = Some [0x00, 0x01, 0x0D, 0xFE, 0x41])"
  using encode_binary_round_trip [of "[0x41, 0x42, 0xFF]"]
    encode_binary_round_trip [of "[0x00, 0x01, 0x0D, 0xFE, 0x41]"]
  by simp

text \<open>
  C9. \<^verbatim>\<open>unencode_binary\<close> returns on every input. The four equations are the scan: the
  empty input; an escape byte that is the whole remaining input is emitted as it is; an
  escape byte with a successor \<open>b\<close> consumes it and emits \<open>b - 1\<close>; any other byte is
  emitted unchanged.
\<close>

theorem unencode_binary_total:
  "(\<exists>ys. unencode_binary xs = Some ys) \<and>
   unencode_binary [] = Some [] \<and>
   unencode_binary [0x01] = Some [0x01] \<and>
   unencode_binary (0x01 # b # xs) = map_option ((#) (b - 1)) (unencode_binary xs) \<and>
   (c \<noteq> 0x01 \<longrightarrow> unencode_binary (c # xs) = map_option ((#) c) (unencode_binary xs))"
  by (simp add: unencode_binary_decoded escape_char_def)

theorem unencode_binary_total_witness:
  "(0x41 :: byte) \<noteq> 0x01 \<and> unencode_binary [0x41, 0x01] = Some [0x41, 0x01]"
  using unencode_binary_total [of "[0x01]" 0 "0x41"] by simp

text \<open>
  C10, as stated, fails: the encoding of the single byte 0x00 is the escape byte followed by
  0x00 + 1 = 0x01, so the byte 0x01 is the last byte of the output and that occurrence has
  no successor.
\<close>

theorem encode_binary_marker_last_counterexample:
  "encode_binary [0x00] = Some [0x01, 0x01] \<and>
   \<not> (\<forall>i < length [0x01, 0x01 :: byte].
        [0x01, 0x01 :: byte] ! i = 0x01 \<longrightarrow> Suc i < length [0x01, 0x01 :: byte])"
proof -
  have "encode_binary [0x00] = Some [0x01, 0x01]"
    by (simp add: encode_binary_def resize_def put_def needs_escaping_def escape_char_def)
  moreover have "\<not> (\<forall>i < length [0x01, 0x01 :: byte].
        [0x01, 0x01 :: byte] ! i = 0x01 \<longrightarrow> Suc i < length [0x01, 0x01 :: byte])"
    by (simp add: less_Suc_eq)
  ultimately show ?thesis by simp
qed

text \<open>
  C10, amended. The output of \<^verbatim>\<open>encode_binary\<close> contains none of the bytes 0x00, 0x0D and
  0xFE, and every escape byte that a left-to-right scan meets has a successor, its payload.
  The byte 0x01 is the last byte of the output exactly when the input ends with 0x00 (as
  the payload of that escaped byte).
\<close>

theorem encode_binary_output_bytes:
  "\<exists>y. encode_binary x = Some y \<and>
       0x00 \<notin> set y \<and> 0x0D \<notin> set y \<and> 0xFE \<notin> set y \<and>
       markers_paired y \<and>
       (x \<noteq> [] \<longrightarrow> y \<noteq> [] \<and> (last y = 0x01) = (last x = 0x00))"
proof -
  show ?thesis
    using set_encoded [of x] markers_paired_encoded [of x] encoded_last [of x]
    by (simp add: encode_binary_encoded)
qed

theorem encode_binary_output_bytes_witness:
  "[0x41, 0x00 :: byte] \<noteq> [] \<and>
   (\<exists>y. encode_binary [0x41, 0x00] = Some y \<and> markers_paired y \<and> last y = 0x01)"
  using encode_binary_output_bytes [of "[0x41, 0x00]"] by auto

section \<open>Proofs: file names\<close>

text \<open>
  \<open>contains_dotdot\<close> is the search for the substring of two dots, and the stem that the
  source cuts off is the part of the name before its first dot.
\<close>

lemma contains_dotdot_append: "contains_dotdot (p @ CHR ''.'' # CHR ''.'' # q)"
  by (induction p rule: contains_dotdot.induct) simp_all

lemma contains_dotdot_split:
  "contains_dotdot s \<Longrightarrow> \<exists>p q. s = p @ ''..'' @ q"
proof (induction s rule: contains_dotdot.induct)
  case (1 a b s)
  show ?case
  proof (cases "a = CHR ''.'' \<and> b = CHR ''.''")
    case True
    then have "a # b # s = [] @ ''..'' @ s" by simp
    then show ?thesis by blast
  next
    case False
    with 1 obtain p q where "b # s = p @ ''..'' @ q" by auto
    then have "a # b # s = (a # p) @ ''..'' @ q" by simp
    then show ?thesis by blast
  qed
qed simp_all

lemma contains_dotdot_iff: "contains_dotdot s \<longleftrightarrow> (\<exists>p q. s = p @ ''..'' @ q)"
  using contains_dotdot_split contains_dotdot_append by auto

lemma stem_takeWhile:
  assumes "name = stem @ rest" "CHR ''.'' \<notin> set stem" "rest = [] \<or> hd rest = CHR ''.''"
  shows "takeWhile (\<lambda>c. c \<noteq> CHR ''.'') name = stem"
proof -
  have "takeWhile (\<lambda>c. c \<noteq> CHR ''.'') rest = []"
    using assms(3) by (cases rest) auto
  moreover have "\<forall>c \<in> set stem. c \<noteq> CHR ''.''"
    using assms(2) by auto
  ultimately show ?thesis
    using assms(1) by (simp add: takeWhile_append2)
qed

lemma char_eq_char_of: "(c = char_of (n::nat)) = (of_char c = n mod 256)"
  by (metis char_of_char of_char_of)

lemmas legal_eval =
  addon_filename_legal_def dos_device_names_def to_upper_copy_def to_upper_def
  utf8_size_def lead_bits_def ucs4_char_to_utf8_def utf8_byte_def
  addon_filename_ucs4char_illegal_def continuation_def add_continuation_def
  char_eq_char_of

lemma legal_first_checks:
  "name = [] \<or> last name = CHR ''.'' \<or> contains_dotdot name \<or> length name > 255 \<Longrightarrow>
   \<not> addon_filename_legal name"
  by (simp add: addon_filename_legal_def)

lemma legal_dotdot: "name = p @ ''..'' @ s \<Longrightarrow> \<not> addon_filename_legal name"
  using contains_dotdot_append [of p s] legal_first_checks [of name] by simp

lemma legal_stem:
  assumes "name = stem @ rest" "CHR ''.'' \<notin> set stem" "rest = [] \<or> hd rest = CHR ''.''"
    and "to_upper_copy stem \<in> dos_device_names"
  shows "\<not> addon_filename_legal name"
proof -
  have "to_upper_copy (takeWhile (\<lambda>c. c \<noteq> CHR ''.'') name) \<in> dos_device_names"
    using assms by (simp add: stem_takeWhile)
  then show ?thesis by (simp add: addon_filename_legal_def)
qed


text \<open>
  C4. \<^verbatim>\<open>addon_filename_legal\<close> returns false on the empty name, on a name that ends with a
  dot, contains two dots in a row or is longer than 255 bytes, and on a name whose part
  before the first dot is, in ASCII upper case, one of the reserved device names, whatever
  follows the dot. It rejects the eight listed names and accepts the three listed names.
\<close>

theorem addon_filename_legal_rejects:
  "((name = [] \<or> last name = CHR ''.'' \<or> (\<exists>p s. name = p @ ''..'' @ s) \<or> length name > 255 \<or>
     (\<exists>stem rest. name = stem @ rest \<and> CHR ''.'' \<notin> set stem \<and>
        (rest = [] \<or> hd rest = CHR ''.'') \<and>
        to_upper_copy stem \<in>
          {''NUL'', ''CON'', ''AUX'', ''PRN'', ''CONIN$'', ''CONOUT$'',
           ''COM1'', ''COM2'', ''COM3'', ''COM4'', ''COM5'', ''COM6'', ''COM7'', ''COM8'', ''COM9'',
           ''LPT1'', ''LPT2'', ''LPT3'', ''LPT4'', ''LPT5'', ''LPT6'', ''LPT7'', ''LPT8'', ''LPT9''}))
    \<longrightarrow> \<not> addon_filename_legal name) \<and>
   \<not> addon_filename_legal '''' \<and>
   \<not> addon_filename_legal ''a.'' \<and>
   \<not> addon_filename_legal ''a..b'' \<and>
   \<not> addon_filename_legal (replicate 256 CHR ''x'') \<and>
   \<not> addon_filename_legal ''CON'' \<and>
   \<not> addon_filename_legal ''con.txt'' \<and>
   \<not> addon_filename_legal ''COM1.backup'' \<and>
   \<not> addon_filename_legal ''CONOUT$'' \<and>
   addon_filename_legal ''readme.txt'' \<and>
   addon_filename_legal ''CONTROL.cfg'' \<and>
   addon_filename_legal ''a-b_c.1''"
  unfolding dos_device_names_def [symmetric]
proof (intro conjI impI)
  assume "name = [] \<or> last name = CHR ''.'' \<or> (\<exists>p s. name = p @ ''..'' @ s) \<or>
    length name > 255 \<or>
    (\<exists>stem rest. name = stem @ rest \<and> CHR ''.'' \<notin> set stem \<and>
        (rest = [] \<or> hd rest = CHR ''.'') \<and> to_upper_copy stem \<in> dos_device_names)"
  then show "\<not> addon_filename_legal name"
  proof (elim disjE exE conjE)
    assume "name = []"
    then show ?thesis by (simp add: legal_first_checks)
  next
    assume "last name = CHR ''.''"
    then show ?thesis by (simp add: legal_first_checks)
  next
    fix p s assume "name = p @ ''..'' @ s"
    then show ?thesis by (rule legal_dotdot)
  next
    assume "length name > 255"
    then show ?thesis by (simp add: legal_first_checks)
  next
    fix stem rest
    assume "name = stem @ rest" "CHR ''.'' \<notin> set stem" "rest = []"
      "to_upper_copy stem \<in> dos_device_names"
    then show ?thesis using legal_stem [of name stem rest] by simp
  next
    fix stem rest
    assume "name = stem @ rest" "CHR ''.'' \<notin> set stem" "hd rest = CHR ''.''"
      "to_upper_copy stem \<in> dos_device_names"
    then show ?thesis using legal_stem [of name stem rest] by simp
  qed
next
  show "\<not> addon_filename_legal ''''" by (simp add: legal_eval)
next
  show "\<not> addon_filename_legal ''a.''" by (simp add: legal_eval)
next
  show "\<not> addon_filename_legal ''a..b''" by (simp add: legal_eval)
next
  show "\<not> addon_filename_legal (replicate 256 CHR ''x'')" by (simp add: legal_first_checks)
next
  show "\<not> addon_filename_legal ''CON''" by (simp add: legal_eval)
next
  show "\<not> addon_filename_legal ''con.txt''" by (simp add: legal_eval)
next
  show "\<not> addon_filename_legal ''COM1.backup''" by (simp add: legal_eval)
next
  show "\<not> addon_filename_legal ''CONOUT$''" by (simp add: legal_eval)
next
  show "addon_filename_legal ''readme.txt''" by (simp add: legal_eval)
next
  show "addon_filename_legal ''CONTROL.cfg''" by (simp add: legal_eval)
next
  show "addon_filename_legal ''a-b_c.1''" by (simp add: legal_eval)
qed

theorem addon_filename_legal_rejects_witness:
  "(\<exists>p s. ''x..y'' = p @ ''..'' @ s) \<and> \<not> addon_filename_legal ''x..y'' \<and>
   (\<exists>stem rest. ''lpt9.tar.gz'' = stem @ rest \<and> CHR ''.'' \<notin> set stem \<and>
      hd rest = CHR ''.'' \<and> to_upper_copy stem = ''LPT9'') \<and>
   \<not> addon_filename_legal ''lpt9.tar.gz''"
proof -
  have a: "''x..y'' = ''x'' @ ''..'' @ ''y''" by simp
  have b: "''lpt9.tar.gz'' = ''lpt9'' @ ''.tar.gz'' \<and> CHR ''.'' \<notin> set ''lpt9'' \<and>
      hd ''.tar.gz'' = CHR ''.'' \<and> to_upper_copy ''lpt9'' = ''LPT9''"
    by (simp add: to_upper_copy_def to_upper_def)
  have a': "\<exists>p s. ''x..y'' = p @ ''..'' @ s"
    using a by (intro exI)
  have b': "\<exists>stem rest. ''lpt9.tar.gz'' = stem @ rest \<and> CHR ''.'' \<notin> set stem \<and>
      hd rest = CHR ''.'' \<and> to_upper_copy stem = ''LPT9''"
    using b by (intro exI)
  have b'': "\<exists>stem rest. ''lpt9.tar.gz'' = stem @ rest \<and> CHR ''.'' \<notin> set stem \<and>
      (rest = [] \<or> hd rest = CHR ''.'') \<and> to_upper_copy stem \<in>
          {''NUL'', ''CON'', ''AUX'', ''PRN'', ''CONIN$'', ''CONOUT$'',
           ''COM1'', ''COM2'', ''COM3'', ''COM4'', ''COM5'', ''COM6'', ''COM7'', ''COM8'', ''COM9'',
           ''LPT1'', ''LPT2'', ''LPT3'', ''LPT4'', ''LPT5'', ''LPT6'', ''LPT7'', ''LPT8'', ''LPT9''}"
    by (rule exI [of _ "''lpt9''"], rule exI [of _ "''.tar.gz''"])
       (simp add: to_upper_copy_def to_upper_def)
  have "\<not> addon_filename_legal ''x..y''"
    using addon_filename_legal_rejects [of "''x..y''", THEN conjunct1] a' by (elim impE) (intro disjI2 disjI1)
  moreover have "\<not> addon_filename_legal ''lpt9.tar.gz''"
    using addon_filename_legal_rejects [of "''lpt9.tar.gz''", THEN conjunct1] b''
    by (elim impE) (intro disjI2)
  ultimately show ?thesis using a' b' by (intro conjI)
qed

text \<open>
  C5. \<^verbatim>\<open>addon_filename_legal\<close> returns false on a name that decoding and re-encoding does
  not reproduce, and on a name with a decoded code point that is a space, a double quote,
  an asterisk, a slash, a colon, a less-than or greater-than sign, a question mark, a
  backslash, a vertical bar, a tilde or DEL, or is below 0x20, in 0x80-0x9F or in
  0xD800-0xDFFF.
\<close>

theorem addon_filename_legal_unicode:
  "(ucs4_to_utf8 (utf8_to_ucs4 name) \<noteq> name \<longrightarrow> \<not> addon_filename_legal name) \<and>
   ((\<exists>c \<in> set (utf8_to_ucs4 name).
       c \<in> {0x20, 0x22, 0x2A, 0x2F, 0x3A, 0x3C, 0x3E, 0x3F, 0x5C, 0x7C, 0x7E, 0x7F} \<or>
       c < 0x20 \<or> (0x80 \<le> c \<and> c \<le> 0x9F) \<or> (0xD800 \<le> c \<and> c \<le> 0xDFFF))
    \<longrightarrow> \<not> addon_filename_legal name)"
proof -
  have le: "(c \<le> 0x9F) = (c < 0xA0)" "(c \<le> 0xDFFF) = (c < 0xE000)" for c :: char32
    by (simp_all add: word_le_nat_alt word_less_nat_alt) arith+
  have "addon_filename_ucs4char_illegal c"
    if "c \<in> {0x20, 0x22, 0x2A, 0x2F, 0x3A, 0x3C, 0x3E, 0x3F, 0x5C, 0x7C, 0x7E, 0x7F} \<or>
       c < 0x20 \<or> (0x80 \<le> c \<and> c \<le> 0x9F) \<or> (0xD800 \<le> c \<and> c \<le> 0xDFFF)" for c
    using that unfolding le addon_filename_ucs4char_illegal_def by auto
  then have "list_ex addon_filename_ucs4char_illegal (utf8_to_ucs4 name)"
    if "\<exists>c \<in> set (utf8_to_ucs4 name).
       c \<in> {0x20, 0x22, 0x2A, 0x2F, 0x3A, 0x3C, 0x3E, 0x3F, 0x5C, 0x7C, 0x7E, 0x7F} \<or>
       c < 0x20 \<or> (0x80 \<le> c \<and> c \<le> 0x9F) \<or> (0xD800 \<le> c \<and> c \<le> 0xDFFF)"
    using that unfolding list_ex_iff by blast
  then show ?thesis
    by (auto simp: addon_filename_legal_def Let_def)
qed


theorem addon_filename_legal_unicode_witness:
  "ucs4_to_utf8 (utf8_to_ucs4 [CHR 0xC0, CHR 0x80]) \<noteq> [CHR 0xC0, CHR 0x80] \<and>
   \<not> addon_filename_legal [CHR 0xC0, CHR 0x80] \<and>
   0x85 \<in> set (utf8_to_ucs4 [CHR 0xC2, CHR 0x85]) \<and>
   \<not> addon_filename_legal [CHR 0xC2, CHR 0x85]"
proof -
  have a: "ucs4_to_utf8 (utf8_to_ucs4 [CHR 0xC0, CHR 0x80]) \<noteq> [CHR 0xC0, CHR 0x80]"
    by (simp add: legal_eval)
  have b: "utf8_to_ucs4 [CHR 0xC2, CHR 0x85] = [0x85]"
    by (simp add: legal_eval)
  have "\<not> addon_filename_legal [CHR 0xC0, CHR 0x80]"
    using addon_filename_legal_unicode [of "[CHR 0xC0, CHR 0x80]"] a by blast
  moreover have "\<not> addon_filename_legal [CHR 0xC2, CHR 0x85]"
    using addon_filename_legal_unicode [of "[CHR 0xC2, CHR 0x85]"] b by simp
  ultimately show ?thesis using a b by simp
qed

section \<open>Proofs: hash lists and update packs\<close>

text \<open>
  Each of the two loops of \<^verbatim>\<open>write_difference\<close> appends to the children of the pack: the
  first the files of \<open>to\<close> that have no equal in \<open>from\<close>, the second the differences of
  the subdirectories that report changes.
\<close>

lemma fold_files:
  "fold (\<lambda>f (p, has_changes). if found f then (p, has_changes)
                               else (add_child p ''file'' (out f), True)) fs (p0, hc0) =
   (Config (attrs p0) (children p0 @ map (\<lambda>f. (''file'', out f)) (filter (\<lambda>f. \<not> found f) fs)),
    hc0 \<or> filter (\<lambda>f. \<not> found f) fs \<noteq> [])"
  by (induction fs arbitrary: p0 hc0) (auto simp: add_child_def)

lemma fold_dirs:
  "fold (\<lambda>d (p, has_changes).
           let (dir, changed) = g d
           in if changed then (add_child p ''dir'' dir, True) else (p, has_changes)) ds (p0, hc0) =
   (Config (attrs p0) (children p0 @ map (\<lambda>dir. (''dir'', dir)) (map fst (filter snd (map g ds)))),
    hc0 \<or> map fst (filter snd (map g ds)) \<noteq> [])"
  by (induction ds arbitrary: p0 hc0) (auto simp: add_child_def split: prod.splits)

lemma list_ex_comp_file_hash:
  "list_ex (\<lambda>d. comp_file_hash md5 f d) fs =
   (\<exists>d \<in> set fs. attr f ''name'' = attr d ''name'' \<and> file_hash md5 f = file_hash md5 d)"
  by (simp add: list_ex_iff comp_file_hash_def)

lemma write_difference_unfold:
  "write_difference md5 pack from to with_content =
     (let new_files =
            filter (\<lambda>f. \<not> (\<exists>d \<in> set (child_range from ''file'').
                             attr f ''name'' = attr d ''name'' \<and>
                             file_hash md5 f = file_hash md5 d))
              (child_range to ''file'');
          diffs =
            map (\<lambda>d. write_difference md5 empty_config
                        (case find_child from ''dir'' ''name'' (attr d ''name'') of
                           Some origin_dir \<Rightarrow> origin_dir
                         | None \<Rightarrow> Config [''name'' \<mapsto> attr d ''name''] [])
                        d with_content)
              (child_range to ''dir'');
          changed_dirs = map fst (filter snd diffs)
      in (Config ((attrs pack)(''name'' \<mapsto> attr to ''name''))
            (children pack @
             map (\<lambda>f. (''file'',
                        Config (if with_content
                                then [''name'' \<mapsto> attr f ''name'',
                                      ''contents'' \<mapsto> attr f ''contents'',
                                      ''hash'' \<mapsto> file_hash md5 f]
                                else [''name'' \<mapsto> attr f ''name'']) []))
               new_files @
             map (\<lambda>dir. (''dir'', dir)) changed_dirs),
          new_files \<noteq> [] \<or> changed_dirs \<noteq> []))"
proof -
  obtain a cs where to: "to = Config a cs" by (cases to)
  let ?g = "\<lambda>d. write_difference md5 empty_config
                        (case find_child from ''dir'' ''name'' (attr d ''name'') of
                           Some origin_dir \<Rightarrow> origin_dir
                         | None \<Rightarrow> Config [''name'' \<mapsto> attr d ''name''] [])
                        d with_content"
  have body:
    "(\<lambda>d (p, has_changes).
         case find_child from ''dir'' ''name'' (attr d ''name'') of
           Some origin_dir \<Rightarrow>
             (let (dir, changed) = write_difference md5 empty_config origin_dir d with_content
              in if changed then (add_child p ''dir'' dir, True) else (p, has_changes))
         | None \<Rightarrow>
             (let dummy_dir = set_attr empty_config ''name'' (attr d ''name'');
                  (dir, changed) = write_difference md5 empty_config dummy_dir d with_content
              in if changed then (add_child p ''dir'' dir, True) else (p, has_changes))) =
     (\<lambda>d (p, has_changes).
         let (dir, changed) = ?g d
         in if changed then (add_child p ''dir'' dir, True) else (p, has_changes))"
    by (intro ext) (simp add: set_attr_def empty_config_def split: option.splits)
  show ?thesis
    unfolding to write_difference.simps Let_def body [unfolded Let_def]
    by (simp add: fold_files fold_dirs [unfolded Let_def] list_ex_comp_file_hash set_attr_def
        empty_config_def Let_def)
qed

lemmas tree_eval =
  mk_file_def mk_dir_def child_range_def find_child_def attr_def set_attr_def add_child_def
  empty_config_def comp_file_hash_def file_hash_def file_hash_raw_def

lemma find_distinct:
  "distinct (map f xs) \<Longrightarrow> x \<in> set xs \<Longrightarrow> find (\<lambda>y. f y = f x) xs = Some x"
  by (induction xs) auto

lemma unique_dir_names_find:
  assumes "unique_dir_names T" "d \<in> set (child_range T ''dir'')"
  shows "find_child T ''dir'' ''name'' (attr d ''name'') = Some d" and "unique_dir_names d"
proof -
  obtain a cs where T: "T = Config a cs" by (cases T)
  from assms(1) have dist: "distinct (map (\<lambda>d. attr d ''name'') (child_range T ''dir''))"
    and all: "list_all unique_dir_names (child_range T ''dir'')"
    unfolding T by (simp_all add: Let_def)
  from find_distinct [OF dist assms(2)]
  show "find_child T ''dir'' ''name'' (attr d ''name'') = Some d"
    by (simp add: find_child_def)
  from all assms(2) show "unique_dir_names d"
    by (simp add: list_all_iff)
qed

lemma contains_hashlist_same: "unique_dir_names T \<Longrightarrow> contains_hashlist md5 T T"
proof (induction T rule: measure_induct_rule [of size])
  case (less T)
  obtain a cs where T: "T = Config a cs" by (cases T)
  have files: "list_all (\<lambda>f. list_ex (\<lambda>d. comp_file_hash md5 f d) (child_range T ''file''))
                 (child_range T ''file'')"
    by (auto simp: list_all_iff list_ex_iff comp_file_hash_def)
  have dirs: "case find_child T ''dir'' ''name'' (attr d ''name'') of
                Some origin_dir \<Rightarrow> contains_hashlist md5 origin_dir d
              | None \<Rightarrow>
                  (let dummy_dir = set_attr empty_config ''name'' (attr d ''name'')
                   in contains_hashlist md5 dummy_dir d)"
    if "d \<in> set (child_range T ''dir'')" for d
  proof -
    have "contains_hashlist md5 d d"
      using less.IH [of d] that unique_dir_names_find(2) [OF less.prems that]
      by (simp add: size_child_range)
    then show ?thesis
      by (simp add: unique_dir_names_find(1) [OF less.prems that])
  qed
  from files dirs show ?case
    unfolding T contains_hashlist.simps Let_def list_all_iff by blast
qed

lemma write_difference_same:
  "unique_dir_names T \<Longrightarrow>
   write_difference md5 pack T T with_content =
     (Config ((attrs pack)(''name'' \<mapsto> attr T ''name'')) (children pack), False)"
proof (induction T arbitrary: pack rule: measure_induct_rule [of size])
  case (less T)
  have files: "filter (\<lambda>f. \<not> (\<exists>d \<in> set (child_range T ''file'').
                             attr f ''name'' = attr d ''name'' \<and>
                             file_hash md5 f = file_hash md5 d))
              (child_range T ''file'') = []"
    by (auto simp: filter_empty_conv)
  have "snd (write_difference md5 empty_config
                        (case find_child T ''dir'' ''name'' (attr d ''name'') of
                           Some origin_dir \<Rightarrow> origin_dir
                         | None \<Rightarrow> Config [''name'' \<mapsto> attr d ''name''] [])
                        d with_content) = False"
    if "d \<in> set (child_range T ''dir'')" for d
    using less.IH [of d empty_config] that unique_dir_names_find [OF less.prems that]
    by (simp add: size_child_range)
  then have dirs: "filter snd (map (\<lambda>d. write_difference md5 empty_config
                        (case find_child T ''dir'' ''name'' (attr d ''name'') of
                           Some origin_dir \<Rightarrow> origin_dir
                         | None \<Rightarrow> Config [''name'' \<mapsto> attr d ''name''] [])
                        d with_content) (child_range T ''dir'')) = []"
    by (simp add: filter_empty_conv)
  show ?case
    by (subst write_difference_unfold) (simp only: Let_def files dirs, simp)
qed

lemma write_hashlist_unfold:
  "write_hashlist md5 hashlist data =
     Config ((attrs hashlist)(''name'' \<mapsto> attr data ''name''))
       (children hashlist @
        map (\<lambda>f. (''file'',
                   Config [''name'' \<mapsto> attr f ''name'',
                           ''hash'' \<mapsto> md5 (attr f ''contents'')] []))
          (child_range data ''file'') @
        map (\<lambda>d. (''dir'', write_hashlist md5 empty_config d)) (child_range data ''dir''))"
proof -
  obtain a cs where data: "data = Config a cs" by (cases data)
  have add: "fold (\<lambda>x h. add_child h tag (g x)) xs h0 =
             Config (attrs h0) (children h0 @ map (\<lambda>x. (tag, g x)) xs)"
    for tag and g :: "config \<Rightarrow> config" and xs h0
    by (induction xs arbitrary: h0) (simp_all add: add_child_def)
  show ?thesis
    unfolding data write_hashlist.simps Let_def add
    by (simp add: set_attr_def empty_config_def file_hash_raw_def)
qed

text \<open>
  C2, as stated, fails on a tree with two sibling directories of the same name:
  \<^verbatim>\<open>find_child\<close> returns the first of them for both, and the second one, which has a file,
  is not contained in the first, which is empty. This holds for every digest function.
\<close>

theorem contains_hashlist_twin_dirs_counterexample:
  "\<forall>md5. \<not> contains_hashlist md5 twin_dirs twin_dirs"
  by (simp add: twin_dirs_def tree_eval)


text \<open>
  C2, amended. For every tree whose sibling directories have distinct names at every level,
  \<^verbatim>\<open>contains_hashlist(T, T)\<close> is true. Sibling files may share a name: each file is its own
  counterpart.
\<close>

theorem contains_hashlist_reflexive:
  "unique_dir_names T \<Longrightarrow> contains_hashlist md5 T T"
  by (rule contains_hashlist_same)


theorem contains_hashlist_reflexive_witness:
  "\<forall>md5. unique_dir_names twin_files \<and> contains_hashlist md5 twin_files twin_files"
proof -
  have u: "unique_dir_names twin_files"
    by (simp add: twin_files_def tree_eval)
  show ?thesis
    using u contains_hashlist_reflexive [OF u] by blast
qed


text \<open>
  C3, as stated, fails on the same tree: the second directory \<open>a\<close> is compared with the
  first, its file is missing there, and both the add list and the remove list get a
  directory entry \<open>a\<close>.
\<close>

theorem make_updatepack_twin_dirs_counterexample:
  "\<forall>md5. map (\<lambda>l. map (\<lambda>d. attr d ''name'') (child_range l ''dir''))
           (child_range (make_updatepack md5 empty_config twin_dirs twin_dirs) ''addlist'') =
         [[''a'']] \<and>
         map (\<lambda>l. map (\<lambda>d. attr d ''name'') (child_range l ''dir''))
           (child_range (make_updatepack md5 empty_config twin_dirs twin_dirs) ''removelist'') =
         [[''a'']]"
  by (simp add: make_updatepack_def twin_dirs_def tree_eval)

text \<open>
  C3, amended. For every tree \<open>T\<close> whose sibling directories have distinct names at every
  level, \<^verbatim>\<open>make_updatepack(pack, T, T)\<close> adds to the pack a remove list and an add list that
  carry the name of \<open>T\<close> and have no children at all.
\<close>

theorem make_updatepack_same:
  "unique_dir_names T \<Longrightarrow>
   make_updatepack md5 pack T T =
     Config (attrs pack)
       (children pack @
        [(''removelist'', Config [''name'' \<mapsto> attr T ''name''] []),
         (''addlist'', Config [''name'' \<mapsto> attr T ''name''] [])])"
  by (simp add: make_updatepack_def write_difference_same add_child_def empty_config_def)


theorem make_updatepack_same_witness:
  "\<forall>md5. unique_dir_names old_tree \<and>
     map (\<lambda>tc. (fst tc, children (snd tc)))
       (children (make_updatepack md5 empty_config old_tree old_tree)) =
     [(''removelist'', []), (''addlist'', [])]"
proof -
  have u: "unique_dir_names old_tree"
    by (simp add: old_tree_def tree_eval)
  show ?thesis
    using u by (simp add: make_updatepack_same [OF u] empty_config_def)
qed


text \<open>
  C6. The result of \<^verbatim>\<open>write_difference\<close>: the pack gets the name of \<open>to\<close>; the files
  attached are the files of \<open>to\<close> for which no file of \<open>from\<close> has the same name and the
  same hash, with the attributes \<open>contents\<close> and \<open>hash\<close> exactly when \<open>with_content\<close>
  holds; the directories attached are the differences of the subdirectories of \<open>to\<close>
  (against the first subdirectory of \<open>from\<close> of the same name, or an empty one with that
  name) that report changes; and the flag is true exactly when a file or a directory was
  attached.
\<close>

theorem write_difference_result:
  "write_difference md5 pack from to with_content =
     (let new_files =
            filter (\<lambda>f. \<not> (\<exists>d \<in> set (child_range from ''file'').
                             attr f ''name'' = attr d ''name'' \<and>
                             file_hash md5 f = file_hash md5 d))
              (child_range to ''file'');
          diffs =
            map (\<lambda>d. write_difference md5 empty_config
                        (case find_child from ''dir'' ''name'' (attr d ''name'') of
                           Some origin_dir \<Rightarrow> origin_dir
                         | None \<Rightarrow> Config [''name'' \<mapsto> attr d ''name''] [])
                        d with_content)
              (child_range to ''dir'');
          changed_dirs = map fst (filter snd diffs)
      in (Config ((attrs pack)(''name'' \<mapsto> attr to ''name''))
            (children pack @
             map (\<lambda>f. (''file'',
                        Config (if with_content
                                then [''name'' \<mapsto> attr f ''name'',
                                      ''contents'' \<mapsto> attr f ''contents'',
                                      ''hash'' \<mapsto> file_hash md5 f]
                                else [''name'' \<mapsto> attr f ''name'']) []))
               new_files @
             map (\<lambda>dir. (''dir'', dir)) changed_dirs),
          new_files \<noteq> [] \<or> changed_dirs \<noteq> []))"
  by (rule write_difference_unfold)

theorem write_difference_result_witness:
  "\<forall>md5.
     (let added = write_difference md5 empty_config old_tree new_tree True;
          removed = write_difference md5 empty_config new_tree old_tree False
      in snd added \<and>
         map (\<lambda>f. (attr f ''name'', attr f ''contents'', attr f ''hash'', dom (attrs f)))
           (child_range (fst added) ''file'') =
           [(''changed'', ''d'', ''h3'', {''name'', ''contents'', ''hash''})] \<and>
         map (\<lambda>d. (attr d ''name'', map (\<lambda>f. attr f ''name'') (child_range d ''file'')))
           (child_range (fst added) ''dir'') = [(''fresh'', [''new.cfg''])] \<and>
         snd removed \<and>
         map (\<lambda>f. (attr f ''name'', dom (attrs f))) (child_range (fst removed) ''file'') =
           [(''changed'', {''name''})] \<and>
         child_range (fst removed) ''dir'' = [])"
  by (subst write_difference_result, subst write_difference_result)
     (auto simp: old_tree_def new_tree_def tree_eval Let_def)


text \<open>
  C7, as stated, fails: \<^verbatim>\<open>write_hashlist\<close> calls \<^verbatim>\<open>file_hash_raw\<close>, which never reads the
  cached hash. Two files with the same contents and the cached hashes \<open>x\<close> and \<open>y\<close> get
  the same recorded hash, whatever the digest function is, while \<^verbatim>\<open>file_hash\<close> gives
  \<open>x\<close> and \<open>y\<close>.
\<close>

theorem write_hashlist_cached_hash_counterexample:
  "\<forall>md5. map (\<lambda>f. attr f ''hash'')
           (child_range (write_hashlist md5 empty_config cached_tree) ''file'') \<noteq>
         map (file_hash md5) (child_range cached_tree ''file'')"
  by (auto simp: cached_tree_def tree_eval)

text \<open>
  C7, amended. For every file node, \<^verbatim>\<open>write_hashlist\<close> records the digest computed from
  the contents of the file, whether or not the file has a cached hash; subdirectories are
  transformed in the same way. The recorded hash is \<^verbatim>\<open>file_hash\<close> of the file exactly when
  the cached hash is empty or equal to that digest.
\<close>

theorem write_hashlist_result:
  "write_hashlist md5 hashlist data =
     Config ((attrs hashlist)(''name'' \<mapsto> attr data ''name''))
       (children hashlist @
        map (\<lambda>f. (''file'',
                   Config [''name'' \<mapsto> attr f ''name'',
                           ''hash'' \<mapsto> md5 (attr f ''contents'')] []))
          (child_range data ''file'') @
        map (\<lambda>d. (''dir'', write_hashlist md5 empty_config d)) (child_range data ''dir'')) \<and>
   (file_hash md5 f = md5 (attr f ''contents'')) =
     (attr f ''hash'' = [] \<or> attr f ''hash'' = md5 (attr f ''contents''))"
proof
  show "write_hashlist md5 hashlist data =
     Config ((attrs hashlist)(''name'' \<mapsto> attr data ''name''))
       (children hashlist @
        map (\<lambda>f. (''file'',
                   Config [''name'' \<mapsto> attr f ''name'',
                           ''hash'' \<mapsto> md5 (attr f ''contents'')] []))
          (child_range data ''file'') @
        map (\<lambda>d. (''dir'', write_hashlist md5 empty_config d)) (child_range data ''dir''))"
    by (rule write_hashlist_unfold)
  show "(file_hash md5 f = md5 (attr f ''contents'')) =
     (attr f ''hash'' = [] \<or> attr f ''hash'' = md5 (attr f ''contents''))"
    by (auto simp: file_hash_def file_hash_raw_def Let_def)
qed

theorem write_hashlist_result_witness:
  "\<forall>md5. map (\<lambda>f. (attr f ''name'', attr f ''hash'', dom (attrs f)))
           (child_range (write_hashlist md5 empty_config cached_tree) ''file'') =
         [(''a'', md5 ''c'', {''name'', ''hash''}), (''b'', md5 ''c'', {''name'', ''hash''})]"
  by (subst write_hashlist_result [THEN conjunct1])
     (auto simp: cached_tree_def tree_eval)

section \<open>Proofs: names that differ only in case\<close>

text \<open>
  In diagnostic mode \<^verbatim>\<open>record_name\<close> never returns false, keeps \<^verbatim>\<open>filenames\<close> equal to
  \<open>seen_state\<close> of the names recorded so far, and appends \<open>collision_report\<close> of the
  new name. The two loops then append the reports name by name.
\<close>

lemma seen_state_Nil: "seen_state prefix [] = Map.empty"
  by (simp add: seen_state_def)

lemma record_name_diag:
  "record_name prefix name (seen_state prefix earlier, Some bl) =
   Some (seen_state prefix (earlier @ [name]), Some (bl @ collision_report prefix earlier name))"
proof -
  let ?same = "filter (\<lambda>n. to_lower_copy n = to_lower_copy name) earlier"
  have other: "seen_state prefix (earlier @ [name]) k = seen_state prefix earlier k"
    if "k \<noteq> to_lower_copy name" for k
    using that by (auto simp: seen_state_def)
  have key: "seen_state prefix (earlier @ [name]) (to_lower_copy name) =
             (case ?same @ [name] of
                [] \<Rightarrow> None
              | [n] \<Rightarrow> Some (False, prefix @ n)
              | _ \<Rightarrow> Some (True, []))"
    and old: "seen_state prefix earlier (to_lower_copy name) =
             (case ?same of
                [] \<Rightarrow> None
              | [n] \<Rightarrow> Some (False, prefix @ n)
              | _ \<Rightarrow> Some (True, []))"
    by (simp_all add: seen_state_def)
  consider (none) "?same = []" | (one) n where "?same = [n]"
    | (more) n m rest where "?same = n # m # rest"
    by (cases ?same rule: list.exhaust; cases "tl ?same"; force)
  then show ?thesis
  proof cases
    case none
    have "seen_state prefix (earlier @ [name]) k =
          ((seen_state prefix earlier)(to_lower_copy name \<mapsto> (False, prefix @ name))) k" for k
      by (cases "k = to_lower_copy name") (simp_all add: other key none)
    then have "seen_state prefix (earlier @ [name]) =
          (seen_state prefix earlier)(to_lower_copy name \<mapsto> (False, prefix @ name))"
      by (rule ext)
    then show ?thesis
      using none by (simp add: record_name_def collision_report_def old)
  next
    case one
    have "seen_state prefix (earlier @ [name]) k =
          ((seen_state prefix earlier)(to_lower_copy name \<mapsto> (True, []))) k" for k
      by (cases "k = to_lower_copy name") (simp_all add: other key one)
    then have "seen_state prefix (earlier @ [name]) =
          (seen_state prefix earlier)(to_lower_copy name \<mapsto> (True, []))"
      by (rule ext)
    then show ?thesis
      using one by (simp add: record_name_def collision_report_def old)
  next
    case more
    have "seen_state prefix (earlier @ [name]) k = seen_state prefix earlier k" for k
      by (cases "k = to_lower_copy name") (simp_all add: other key old more)
    then have "seen_state prefix (earlier @ [name]) = seen_state prefix earlier"
      by (rule ext)
    then show ?thesis
      using more by (simp add: record_name_def collision_report_def old)
  qed
qed

lemma map_upt_shift: "map f [0..<Suc n] = f 0 # map (\<lambda>i. f (Suc i)) [0..<n]"
proof -
  have "[0..<Suc n] = 0 # map Suc [0..<n]"
    by (simp add: upt_conv_Cons map_Suc_upt del: upt_Suc)
  then show ?thesis by (simp add: comp_def del: upt_Suc)
qed

lemma fold_files_diag:
  "fold (\<lambda>path st. case st of None \<Rightarrow> None
                    | Some s \<Rightarrow> record_name prefix (attr path ''name'') s)
     fs (Some (seen_state prefix e, Some bl)) =
   Some (seen_state prefix (e @ map (\<lambda>f. attr f ''name'') fs),
         Some (bl @ concat (map (\<lambda>i. collision_report prefix
                                      (e @ take i (map (\<lambda>f. attr f ''name'') fs))
                                      (map (\<lambda>f. attr f ''name'') fs ! i))
                            [0..<length fs])))"
proof (induction fs arbitrary: e bl)
  case Nil
  then show ?case by simp
next
  case (Cons f fs)
  show ?case
    by (simp add: record_name_diag Cons.IH map_upt_shift del: upt_Suc)
qed

lemma fold_dirs_diag:
  assumes sub: "\<And>d p b. d \<in> set ds \<Longrightarrow> chk d p (Some b) = (b @ R d p = [], Some (b @ R d p))"
  shows
  "fold (\<lambda>path st.
           case st of
             None \<Rightarrow> None
           | Some s \<Rightarrow>
               (case record_name prefix (attr path ''name'') s of
                  None \<Rightarrow> None
                | Some (filenames, badlist1) \<Rightarrow>
                    (let (ok, badlist2) = chk path (prefix @ attr path ''name'' @ ''/'') badlist1
                     in if \<not> ok \<and> Some b0 = None then None
                        else Some (filenames, badlist2))))
     ds (Some (seen_state prefix e, Some bl)) =
   Some (seen_state prefix (e @ map (\<lambda>d. attr d ''name'') ds),
         Some (bl @ concat (map (\<lambda>i. collision_report prefix
                                      (e @ take i (map (\<lambda>d. attr d ''name'') ds))
                                      (map (\<lambda>d. attr d ''name'') ds ! i) @
                                    R (ds ! i) (prefix @ map (\<lambda>d. attr d ''name'') ds ! i @ ''/''))
                            [0..<length ds])))"
  using sub
proof (induction ds arbitrary: e bl)
  case Nil
  then show ?case by simp
next
  case (Cons d ds)
  have IH: "\<And>e bl. fold (\<lambda>path st.
           case st of
             None \<Rightarrow> None
           | Some s \<Rightarrow>
               (case record_name prefix (attr path ''name'') s of
                  None \<Rightarrow> None
                | Some (filenames, badlist1) \<Rightarrow>
                    (let (ok, badlist2) = chk path (prefix @ attr path ''name'' @ ''/'') badlist1
                     in if \<not> ok \<and> Some b0 = None then None
                        else Some (filenames, badlist2))))
     ds (Some (seen_state prefix e, Some bl)) =
   Some (seen_state prefix (e @ map (\<lambda>d. attr d ''name'') ds),
         Some (bl @ concat (map (\<lambda>i. collision_report prefix
                                      (e @ take i (map (\<lambda>d. attr d ''name'') ds))
                                      (map (\<lambda>d. attr d ''name'') ds ! i) @
                                    R (ds ! i) (prefix @ map (\<lambda>d. attr d ''name'') ds ! i @ ''/''))
                            [0..<length ds])))"
    using Cons.IH Cons.prems by simp
  have here: "chk d p (Some b) = (b @ R d p = [], Some (b @ R d p))" for p b
    using Cons.prems by simp
  show ?case
    by (simp add: record_name_diag here IH map_upt_shift del: upt_Suc)
qed

lemma check_internal_diag:
  "check_case_insensitive_duplicates_internal dir prefix (Some bl) =
   (bl @ duplicates_report dir prefix = [], Some (bl @ duplicates_report dir prefix))"
proof (induction dir arbitrary: prefix bl rule: measure_induct_rule [of size])
  case (less dir)
  obtain a cs where dir: "dir = Config a cs" by (cases dir)
  have sub: "check_case_insensitive_duplicates_internal d p (Some b) =
             (b @ duplicates_report d p = [], Some (b @ duplicates_report d p))"
    if "d \<in> set (child_range dir ''dir'')" for d p b
    using less.IH [of d p b] that by (simp add: size_child_range)
  let ?fs = "map (\<lambda>f. attr f ''name'') (child_range dir ''file'')"
  let ?FR = "concat (map (\<lambda>i. collision_report prefix (take i ?fs) (?fs ! i))
                       [0..<length (child_range dir ''file'')])"
  have files:
    "fold (\<lambda>path st. case st of None \<Rightarrow> None
                      | Some s \<Rightarrow> record_name prefix (attr path ''name'') s)
       (child_range dir ''file'') (Some (Map.empty, Some bl)) =
     Some (seen_state prefix ?fs, Some (bl @ ?FR))"
    using fold_files_diag [of prefix "child_range dir ''file''" "[]" bl]
    by (simp add: seen_state_Nil)
  note dirs = fold_dirs_diag [of "child_range dir ''dir''"
      check_case_insensitive_duplicates_internal duplicates_report prefix bl ?fs "bl @ ?FR",
      OF sub]
  have "check_case_insensitive_duplicates_internal dir prefix (Some bl) =
        (let bl' = (bl @ ?FR) @
               concat (map (\<lambda>i. collision_report prefix
                                    (?fs @ take i (map (\<lambda>d. attr d ''name'') (child_range dir ''dir'')))
                                    (map (\<lambda>d. attr d ''name'') (child_range dir ''dir'') ! i) @
                                  duplicates_report (child_range dir ''dir'' ! i)
                                    (prefix @ map (\<lambda>d. attr d ''name'') (child_range dir ''dir'') ! i @ ''/''))
                          [0..<length (child_range dir ''dir'')])
         in (bl' = [], Some bl'))"
    unfolding dir check_case_insensitive_duplicates_internal.simps
    by (simp only: Let_def files [unfolded dir] dirs [unfolded dir Let_def], simp)
  moreover have "duplicates_report dir prefix =
        ?FR @ concat (map (\<lambda>i. collision_report prefix
                                    (?fs @ take i (map (\<lambda>d. attr d ''name'') (child_range dir ''dir'')))
                                    (map (\<lambda>d. attr d ''name'') (child_range dir ''dir'') ! i) @
                                  duplicates_report (child_range dir ''dir'' ! i)
                                    (prefix @ map (\<lambda>d. attr d ''name'') (child_range dir ''dir'') ! i @ ''/''))
                          [0..<length (child_range dir ''dir'')])"
    unfolding dir duplicates_report.simps by (simp only: Let_def length_map)
  ultimately show ?case by (simp add: Let_def)
qed

lemmas report_eval =
  mk_file_def mk_dir_def child_range_def attr_def to_lower_copy_def to_lower_def
  collision_report_def Let_def

text \<open>
  C8. In diagnostic mode \<^verbatim>\<open>check_case_insensitive_duplicates\<close> appends to the list it is
  given exactly \<open>duplicates_report\<close>: at the first collision on a lower-cased key within a
  level the path seen before and the new path, at every later collision on that key only the
  new path; and it returns whether the list is empty. On the directory with
  \<open>Readme.txt\<close> and \<open>readme.TXT\<close> it reports both paths.
\<close>

theorem check_case_insensitive_duplicates_report:
  "check_case_insensitive_duplicates dir (Some bl) =
     (bl @ duplicates_report dir [] = [], Some (bl @ duplicates_report dir [])) \<and>
   check_case_insensitive_duplicates readme_dir (Some []) =
     (False, Some [''Readme.txt'', ''readme.TXT''])"
proof
  show "check_case_insensitive_duplicates dir (Some bl) =
     (bl @ duplicates_report dir [] = [], Some (bl @ duplicates_report dir []))"
    by (simp add: check_case_insensitive_duplicates_def check_internal_diag)
  show "check_case_insensitive_duplicates readme_dir (Some []) =
     (False, Some [''Readme.txt'', ''readme.TXT''])"
    by (simp add: check_case_insensitive_duplicates_def readme_dir_def report_eval
        record_name_def)
qed


theorem check_case_insensitive_duplicates_report_witness:
  "check_case_insensitive_duplicates case_tree (Some [''earlier'']) =
     (False, Some [''earlier'', ''Ab'', ''aB'', ''AB'', ''ab'', ''ab/x'', ''ab/X''])"
proof -
  have "duplicates_report case_tree [] = [''Ab'', ''aB'', ''AB'', ''ab'', ''ab/x'', ''ab/X'']"
    by (simp add: case_tree_def report_eval)
  then show ?thesis
    using check_case_insensitive_duplicates_report [of case_tree "[''earlier'']", THEN conjunct1]
    by simp
qed

end
